theory Spec2Isabelle
  imports Main
begin

section \<open>The State example: objects, store and console\<close>

text \<open>
  The State example builds a small object graph: a \<open>Context\<close> object refers to its
  current \<open>State\<close> object, and every \<open>State\<close> object refers back to a \<open>Context\<close>.
  Both fields are assigned after the object exists, and objects are shared by reference,
  so the model keeps an explicit store: objects live in two lists, a reference is an
  index, \<open>new\<close> appends. A field that has not been assigned yet (\<open>undefined\<close> in the
  running program) is \<open>None\<close>.
\<close>

type_synonym sref = nat
type_synonym cref = nat

text \<open>The two concrete classes extending the abstract class \<open>State\<close>.\<close>

datatype variant = ConcreteStateA | ConcreteStateB

text \<open>\<open>state.constructor.name\<close>, as printed by \<open>transitionTo\<close>.\<close>

fun constructor_name :: "variant \<Rightarrow> string" where
  "constructor_name ConcreteStateA = ''ConcreteStateA''"
| "constructor_name ConcreteStateB = ''ConcreteStateB''"

text \<open>
  A \<open>State\<close> object: its class and the protected field \<open>context\<close> (named \<open>context_ref\<close>
  here, \<open>context\<close> being a keyword of the theory language).
\<close>

record State =
  cls :: variant
  context_ref :: "cref option"

text \<open>A \<open>Context\<close> object: the private field \<open>state\<close>.\<close>

record Context =
  state :: "sref option"

text \<open>The store: all \<open>State\<close> objects, all \<open>Context\<close> objects, and the lines written by
  \<open>console.log\<close>, oldest first.\<close>

record store =
  states :: "State list"
  contexts :: "Context list"
  console :: "string list"

text \<open>
  \<open>TypeError\<close> is what the running program throws when it calls a method on a field
  that is still \<open>undefined\<close>. \<open>DanglingRef\<close> has no counterpart in the program, where
  every reference denotes a live object: it makes the model total on indices that are
  outside the store. An operation returns \<open>Inr\<close> with the store it leaves, or \<open>Inl\<close> with
  the error it throws; the lines printed before a throw are not kept, as nothing here
  depends on them.
\<close>

datatype error = TypeError | DanglingRef

definition empty_store :: store where
  "empty_store = \<lparr>states = [], contexts = [], console = []\<rparr>"

definition lookup_State :: "store \<Rightarrow> sref \<Rightarrow> State option" where
  "lookup_State h s = (if s < length (states h) then Some (states h ! s) else None)"

definition lookup_Context :: "store \<Rightarrow> cref \<Rightarrow> Context option" where
  "lookup_Context h c = (if c < length (contexts h) then Some (contexts h ! c) else None)"

definition console_log :: "string \<Rightarrow> store \<Rightarrow> store" where
  "console_log line h = h\<lparr>console := console h @ [line]\<rparr>"

text \<open>\<open>new ConcreteStateA()\<close>, \<open>new ConcreteStateB()\<close>: neither class declares a constructor,
  so the new object has its \<open>context\<close> field unassigned.\<close>

definition new_State :: "variant \<Rightarrow> store \<Rightarrow> sref \<times> store" where
  "new_State v h =
     (length (states h), h\<lparr>states := states h @ [\<lparr>cls = v, context_ref = None\<rparr>]\<rparr>)"

subsection \<open>State.setContext\<close>

definition setContext :: "sref \<Rightarrow> cref \<Rightarrow> store \<Rightarrow> error + store" where
  "setContext s c h =
     (case lookup_State h s of
        None \<Rightarrow> Inl DanglingRef
      | Some st \<Rightarrow> Inr (h\<lparr>states := (states h)[s := st\<lparr>context_ref := Some c\<rparr>]\<rparr>))"

subsection \<open>Context.transitionTo\<close>

text \<open>
  Three statements: the trace line with the class name of the argument, the assignment
  \<open>this.state = state\<close>, and \<open>this.state.setContext(this)\<close>, which reads the field just
  assigned.
\<close>

definition transitionTo :: "cref \<Rightarrow> sref \<Rightarrow> store \<Rightarrow> error + store" where
  "transitionTo c s h =
     (case lookup_Context h c of
        None \<Rightarrow> Inl DanglingRef
      | Some ctx \<Rightarrow>
          (case lookup_State h s of
             None \<Rightarrow> Inl DanglingRef
           | Some st \<Rightarrow>
               (let h1 = console_log
                           (''Context: Transition to '' @ constructor_name (cls st) @ ''.'') h;
                    h2 = h1\<lparr>contexts := (contexts h1)[c := ctx\<lparr>state := Some s\<rparr>]\<rparr>
                in case state (contexts h2 ! c) of
                     None \<Rightarrow> Inl TypeError
                   | Some s' \<Rightarrow> setContext s' c h2)))"

subsection \<open>The Context constructor\<close>

text \<open>\<open>new Context(state)\<close>: the object is allocated with \<open>state\<close> unassigned, then the
  constructor body calls \<open>this.transitionTo(state)\<close>.\<close>

definition new_Context :: "sref \<Rightarrow> store \<Rightarrow> error + (cref \<times> store)" where
  "new_Context s h =
     (let c = length (contexts h);
          h1 = h\<lparr>contexts := contexts h @ [\<lparr>state = None\<rparr>]\<rparr>
      in case transitionTo c s h1 of
           Inl e \<Rightarrow> Inl e
         | Inr h2 \<Rightarrow> Inr (c, h2))"

subsection \<open>The handlers of the two concrete states\<close>

text \<open>
  In \<open>this.context.transitionTo(new ConcreteStateB())\<close> the callee \<open>this.context.transitionTo\<close>
  is evaluated before the argument: with \<open>this.context\<close> unassigned the call throws before
  any object is created.
\<close>

definition ConcreteStateA_handle1 :: "sref \<Rightarrow> store \<Rightarrow> error + store" where
  "ConcreteStateA_handle1 this h =
     (let h1 = console_log ''ConcreteStateA handles request1.'' h;
          h2 = console_log ''ConcreteStateA wants to change the state of the context.'' h1
      in case lookup_State h2 this of
           None \<Rightarrow> Inl DanglingRef
         | Some st \<Rightarrow>
             (case context_ref st of
                None \<Rightarrow> Inl TypeError
              | Some c \<Rightarrow>
                  (let (b, h3) = new_State ConcreteStateB h2 in transitionTo c b h3)))"

definition ConcreteStateA_handle2 :: "sref \<Rightarrow> store \<Rightarrow> error + store" where
  "ConcreteStateA_handle2 this h = Inr (console_log ''ConcreteStateA handles request2.'' h)"

definition ConcreteStateB_handle1 :: "sref \<Rightarrow> store \<Rightarrow> error + store" where
  "ConcreteStateB_handle1 this h = Inr (console_log ''ConcreteStateB handles request1.'' h)"

definition ConcreteStateB_handle2 :: "sref \<Rightarrow> store \<Rightarrow> error + store" where
  "ConcreteStateB_handle2 this h =
     (let h1 = console_log ''ConcreteStateB handles request2.'' h;
          h2 = console_log ''ConcreteStateB wants to change the state of the context.'' h1
      in case lookup_State h2 this of
           None \<Rightarrow> Inl DanglingRef
         | Some st \<Rightarrow>
             (case context_ref st of
                None \<Rightarrow> Inl TypeError
              | Some c \<Rightarrow>
                  (let (a, h3) = new_State ConcreteStateA h2 in transitionTo c a h3)))"

text \<open>The abstract methods \<open>handle1\<close> and \<open>handle2\<close>: dispatch on the class of the receiver.\<close>

definition handle1 :: "sref \<Rightarrow> store \<Rightarrow> error + store" where
  "handle1 s h =
     (case lookup_State h s of
        None \<Rightarrow> Inl DanglingRef
      | Some st \<Rightarrow>
          (case cls st of
             ConcreteStateA \<Rightarrow> ConcreteStateA_handle1 s h
           | ConcreteStateB \<Rightarrow> ConcreteStateB_handle1 s h))"

definition handle2 :: "sref \<Rightarrow> store \<Rightarrow> error + store" where
  "handle2 s h =
     (case lookup_State h s of
        None \<Rightarrow> Inl DanglingRef
      | Some st \<Rightarrow>
          (case cls st of
             ConcreteStateA \<Rightarrow> ConcreteStateA_handle2 s h
           | ConcreteStateB \<Rightarrow> ConcreteStateB_handle2 s h))"

subsection \<open>Context.request1 and Context.request2\<close>

definition request1 :: "cref \<Rightarrow> store \<Rightarrow> error + store" where
  "request1 c h =
     (case lookup_Context h c of
        None \<Rightarrow> Inl DanglingRef
      | Some ctx \<Rightarrow>
          (case state ctx of
             None \<Rightarrow> Inl TypeError
           | Some s \<Rightarrow> handle1 s h))"

definition request2 :: "cref \<Rightarrow> store \<Rightarrow> error + store" where
  "request2 c h =
     (case lookup_Context h c of
        None \<Rightarrow> Inl DanglingRef
      | Some ctx \<Rightarrow>
          (case state ctx of
             None \<Rightarrow> Inl TypeError
           | Some s \<Rightarrow> handle2 s h))"

subsection \<open>Observations on the store\<close>

text \<open>The class of the state object a context currently holds.\<close>

definition active_variant :: "store \<Rightarrow> cref \<Rightarrow> variant option" where
  "active_variant h c =
     (case lookup_Context h c of
        None \<Rightarrow> None
      | Some ctx \<Rightarrow>
          (case state ctx of
             None \<Rightarrow> None
           | Some s \<Rightarrow> map_option cls (lookup_State h s)))"

subsection \<open>The client code\<close>

text \<open>
  \<open>const context = new Context(new ConcreteStateA()); context.request1(); context.request2();\<close>
  run from the empty store. An uncaught error ends the script.
\<close>

definition client_code :: "error + store" where
  "client_code =
     (let (a, h0) = new_State ConcreteStateA empty_store
      in case new_Context a h0 of
           Inl e \<Rightarrow> Inl e
         | Inr (context, h1) \<Rightarrow>
             (case request1 context h1 of
                Inl e \<Rightarrow> Inl e
              | Inr h2 \<Rightarrow> request2 context h2))"

subsection \<open>Sequences of requests\<close>

text \<open>The two requests a client can send to a context, and a sequence of them sent to
  one context, stopping at the first error.\<close>

datatype request = RequestOne | RequestTwo

fun send :: "request \<Rightarrow> cref \<Rightarrow> store \<Rightarrow> error + store" where
  "send RequestOne c h = request1 c h"
| "send RequestTwo c h = request2 c h"

fun requests :: "cref \<Rightarrow> request list \<Rightarrow> store \<Rightarrow> error + store" where
  "requests c [] h = Inr h"
| "requests c (r # rs) h =
     (case send r c h of Inl e \<Rightarrow> Inl e | Inr h' \<Rightarrow> requests c rs h')"

text \<open>The same call made \<open>n\<close> times in a row.\<close>

fun repeat :: "nat \<Rightarrow> (store \<Rightarrow> error + store) \<Rightarrow> store \<Rightarrow> error + store" where
  "repeat 0 f h = Inr h"
| "repeat (Suc n) f h = (case f h of Inl e \<Rightarrow> Inl e | Inr h' \<Rightarrow> repeat n f h')"

text \<open>
  The two-state machine as the specification words it: A goes to B on request one, B goes
  to A on request two, and the other request leaves the state where it is. This
  definition follows the specification, not the code; the code is compared with it.
\<close>

fun spec_machine :: "variant \<Rightarrow> request \<Rightarrow> variant" where
  "spec_machine ConcreteStateA RequestOne = ConcreteStateB"
| "spec_machine ConcreteStateA RequestTwo = ConcreteStateA"
| "spec_machine ConcreteStateB RequestOne = ConcreteStateB"
| "spec_machine ConcreteStateB RequestTwo = ConcreteStateA"

subsection \<open>Client programs and reachable stores\<close>

text \<open>
  What a client can do with the classes through \<open>Context\<close>: create a state object,
  construct a context with an existing state object, and call \<open>transitionTo\<close>,
  \<open>request1\<close> or \<open>request2\<close> on an existing context. Objects are named by their index
  in the store. A client program is a list of such commands, run in order until one
  throws. The stores such programs produce from the empty store are the reachable ones.
\<close>

datatype command =
    NewState variant
  | NewContext sref
  | TransitionTo cref sref
  | Request1 cref
  | Request2 cref

fun exec :: "command \<Rightarrow> store \<Rightarrow> error + store" where
  "exec (NewState v) h = Inr (snd (new_State v h))"
| "exec (NewContext s) h =
     (case new_Context s h of Inl e \<Rightarrow> Inl e | Inr (c, h') \<Rightarrow> Inr h')"
| "exec (TransitionTo c s) h = transitionTo c s h"
| "exec (Request1 c) h = request1 c h"
| "exec (Request2 c) h = request2 c h"

fun run :: "command list \<Rightarrow> store \<Rightarrow> error + store" where
  "run [] h = Inr h"
| "run (k # ks) h = (case exec k h of Inl e \<Rightarrow> Inl e | Inr h' \<Rightarrow> run ks h')"

text \<open>A command is in scope when the objects it names exist; a program is scoped when
  each of its commands is in scope at the moment it runs.\<close>

fun in_scope :: "store \<Rightarrow> command \<Rightarrow> bool" where
  "in_scope h (NewState v) = True"
| "in_scope h (NewContext s) = (s < length (states h))"
| "in_scope h (TransitionTo c s) = (c < length (contexts h) \<and> s < length (states h))"
| "in_scope h (Request1 c) = (c < length (contexts h))"
| "in_scope h (Request2 c) = (c < length (contexts h))"

fun scoped :: "command list \<Rightarrow> store \<Rightarrow> bool" where
  "scoped [] h = True"
| "scoped (k # ks) h =
     (in_scope h k \<and> (case exec k h of Inl e \<Rightarrow> True | Inr h' \<Rightarrow> scoped ks h'))"

subsection \<open>Invariants of the store\<close>

text \<open>A context is attached when its \<open>state\<close> field refers to a state object of the
  store whose back-reference is assigned to a context of the store.\<close>

definition attached :: "store \<Rightarrow> cref \<Rightarrow> bool" where
  "attached h c =
     (case lookup_Context h c of
        None \<Rightarrow> False
      | Some ctx \<Rightarrow>
          (case state ctx of
             None \<Rightarrow> False
           | Some s \<Rightarrow>
               (case lookup_State h s of
                  None \<Rightarrow> False
                | Some st \<Rightarrow>
                    (case context_ref st of
                       None \<Rightarrow> False
                     | Some c' \<Rightarrow> c' < length (contexts h)))))"

text \<open>The state object a context holds refers back to that very context.\<close>

definition state_refers_back :: "store \<Rightarrow> cref \<Rightarrow> bool" where
  "state_refers_back h c =
     (case lookup_Context h c of
        None \<Rightarrow> False
      | Some ctx \<Rightarrow>
          (case state ctx of
             None \<Rightarrow> False
           | Some s \<Rightarrow>
               (case lookup_State h s of
                  None \<Rightarrow> False
                | Some st \<Rightarrow> context_ref st = Some c)))"

definition wf_store :: "store \<Rightarrow> bool" where
  "wf_store h = (\<forall>c<length (contexts h). attached h c)"






section \<open>The Facade example\<close>

text \<open>\<open>Subsystem1\<close> and \<open>Subsystem2\<close> are classes without fields; the example declares no
  subclass of either, so all instances of a class behave alike.\<close>

datatype Subsystem1 = Subsystem1

datatype Subsystem2 = Subsystem2

definition Subsystem1_operation1 :: "Subsystem1 \<Rightarrow> string" where
  "Subsystem1_operation1 this = ''Subsystem1: Ready!\<newline>''"

definition Subsystem1_operationN :: "Subsystem1 \<Rightarrow> string" where
  "Subsystem1_operationN this = ''Subsystem1: Go!\<newline>''"

definition Subsystem2_operation1 :: "Subsystem2 \<Rightarrow> string" where
  "Subsystem2_operation1 this = ''Subsystem2: Get ready!\<newline>''"

definition Subsystem2_operationZ :: "Subsystem2 \<Rightarrow> string" where
  "Subsystem2_operationZ this = ''Subsystem2: Fire!''"

record Facade =
  subsystem1 :: Subsystem1
  subsystem2 :: Subsystem2

text \<open>The constructor: both parameters are optional; \<open>x || new C()\<close> keeps an object that
  was passed and creates one otherwise.\<close>

definition new_Facade :: "Subsystem1 option \<Rightarrow> Subsystem2 option \<Rightarrow> Facade" where
  "new_Facade s1 s2 =
     \<lparr>subsystem1 = (case s1 of Some x \<Rightarrow> x | None \<Rightarrow> Subsystem1),
      subsystem2 = (case s2 of Some y \<Rightarrow> y | None \<Rightarrow> Subsystem2)\<rparr>"

definition operation :: "Facade \<Rightarrow> string" where
  "operation this =
     (let result = ''Facade initializes subsystems:\<newline>'';
          result = result @ Subsystem1_operation1 (subsystem1 this);
          result = result @ Subsystem2_operation1 (subsystem2 this);
          result = result @ ''Facade orders subsystems to perform the action:\<newline>'';
          result = result @ Subsystem1_operationN (subsystem1 this);
          result = result @ Subsystem2_operationZ (subsystem2 this)
      in result)"

section \<open>Properties of the Facade example\<close>

text \<open>
  Claim C10. However the facade was constructed, with both subsystems passed in, with one
  of them, or with none, \<open>operation()\<close> returns the same six lines, the last one without a
  line break.
\<close>

theorem facade_operation_result:
  "operation (new_Facade s1 s2) =
     ''Facade initializes subsystems:\<newline>Subsystem1: Ready!\<newline>Subsystem2: Get ready!\<newline>Facade orders subsystems to perform the action:\<newline>Subsystem1: Go!\<newline>Subsystem2: Fire!''"
  by (simp add: operation_def Let_def Subsystem1_operation1_def Subsystem1_operationN_def
      Subsystem2_operation1_def Subsystem2_operationZ_def)

section \<open>Properties of the State example\<close>

subsection \<open>The client code\<close>

lemmas model_defs = new_State_def new_Context_def transitionTo_def
  setContext_def request1_def request2_def handle1_def handle2_def
  ConcreteStateA_handle1_def ConcreteStateA_handle2_def ConcreteStateB_handle1_def
  ConcreteStateB_handle2_def lookup_State_def lookup_Context_def console_log_def
  empty_store_def

text \<open>
  Claim C2. The client code runs to its end without an error and writes exactly seven
  lines: the transition to A made by the constructor, the two lines of A handling
  request one, the transition to B, the two lines of B handling request two, and the
  transition back to A.
\<close>

theorem client_code_trace:
  "\<exists>h. client_code = Inr h \<and> console h =
     [''Context: Transition to ConcreteStateA.'',
      ''ConcreteStateA handles request1.'',
      ''ConcreteStateA wants to change the state of the context.'',
      ''Context: Transition to ConcreteStateB.'',
      ''ConcreteStateB handles request2.'',
      ''ConcreteStateB wants to change the state of the context.'',
      ''Context: Transition to ConcreteStateA.'']"
  by (simp add: client_code_def model_defs Let_def)

subsection \<open>What the operations do on objects of the store\<close>

lemma transitionTo_valid:
  assumes "c < length (contexts h)" and "s < length (states h)"
  shows "transitionTo c s h = Inr
     \<lparr>states = (states h)[s := (states h ! s)\<lparr>context_ref := Some c\<rparr>],
      contexts = (contexts h)[c := (contexts h ! c)\<lparr>state := Some s\<rparr>],
      console = console h @
        [''Context: Transition to '' @ constructor_name (cls (states h ! s)) @ ''.'']\<rparr>"
  using assms
  by (simp add: transitionTo_def lookup_Context_def lookup_State_def console_log_def
      setContext_def Let_def)

lemma new_Context_valid:
  assumes "s < length (states h)"
  shows "new_Context s h = Inr (length (contexts h),
     \<lparr>states = (states h)[s := (states h ! s)\<lparr>context_ref := Some (length (contexts h))\<rparr>],
      contexts = contexts h @ [\<lparr>state = Some s\<rparr>],
      console = console h @
        [''Context: Transition to '' @ constructor_name (cls (states h ! s)) @ ''.'']\<rparr>)"
  using assms by (simp add: new_Context_def Let_def transitionTo_valid)

lemma ConcreteStateA_handle1_valid:
  assumes "s < length (states h)" and "context_ref (states h ! s) = Some c"
    and "c < length (contexts h)"
  shows "ConcreteStateA_handle1 s h = Inr
     \<lparr>states = states h @ [\<lparr>cls = ConcreteStateB, context_ref = Some c\<rparr>],
      contexts = (contexts h)[c := (contexts h ! c)\<lparr>state := Some (length (states h))\<rparr>],
      console = console h @
        [''ConcreteStateA handles request1.'',
         ''ConcreteStateA wants to change the state of the context.'',
         ''Context: Transition to ConcreteStateB.'']\<rparr>"
  using assms
  by (simp add: ConcreteStateA_handle1_def Let_def lookup_State_def console_log_def
      new_State_def transitionTo_valid)

lemma ConcreteStateB_handle2_valid:
  assumes "s < length (states h)" and "context_ref (states h ! s) = Some c"
    and "c < length (contexts h)"
  shows "ConcreteStateB_handle2 s h = Inr
     \<lparr>states = states h @ [\<lparr>cls = ConcreteStateA, context_ref = Some c\<rparr>],
      contexts = (contexts h)[c := (contexts h ! c)\<lparr>state := Some (length (states h))\<rparr>],
      console = console h @
        [''ConcreteStateB handles request2.'',
         ''ConcreteStateB wants to change the state of the context.'',
         ''Context: Transition to ConcreteStateA.'']\<rparr>"
  using assms
  by (simp add: ConcreteStateB_handle2_def Let_def lookup_State_def console_log_def
      new_State_def transitionTo_valid)

lemma request1_held:
  assumes "c < length (contexts h)" and "state (contexts h ! c) = Some s"
    and "s < length (states h)"
  shows "request1 c h =
     (case cls (states h ! s) of
        ConcreteStateA \<Rightarrow> ConcreteStateA_handle1 s h
      | ConcreteStateB \<Rightarrow> ConcreteStateB_handle1 s h)"
  using assms by (simp add: request1_def handle1_def lookup_Context_def lookup_State_def)

lemma request2_held:
  assumes "c < length (contexts h)" and "state (contexts h ! c) = Some s"
    and "s < length (states h)"
  shows "request2 c h =
     (case cls (states h ! s) of
        ConcreteStateA \<Rightarrow> ConcreteStateA_handle2 s h
      | ConcreteStateB \<Rightarrow> ConcreteStateB_handle2 s h)"
  using assms by (simp add: request2_def handle2_def lookup_Context_def lookup_State_def)

lemma active_variant_held:
  assumes "c < length (contexts h)" and "state (contexts h ! c) = Some s"
    and "s < length (states h)"
  shows "active_variant h c = Some (cls (states h ! s))"
  using assms by (simp add: active_variant_def lookup_Context_def lookup_State_def)

lemma active_variant_SomeD:
  assumes "active_variant h c = Some v"
  obtains s where "c < length (contexts h)" "state (contexts h ! c) = Some s"
    "s < length (states h)" "cls (states h ! s) = v"
  using assms
  by (auto simp: active_variant_def lookup_Context_def lookup_State_def
      split: option.splits if_splits)

text \<open>The two errors the program can run into: a handler called on a state object that
  was never given to a context, and a request sent to a context whose \<open>state\<close> field is
  unassigned.\<close>

lemma detached_state_throws:
  "handle1 0 (snd (new_State ConcreteStateA empty_store)) = Inl TypeError"
  "handle2 0 (snd (new_State ConcreteStateB empty_store)) = Inl TypeError"
  by (simp_all add: model_defs Let_def)

lemma unassigned_state_throws:
  "request1 0 \<lparr>states = [], contexts = [\<lparr>state = None\<rparr>], console = []\<rparr> = Inl TypeError"
  "request2 0 \<lparr>states = [], contexts = [\<lparr>state = None\<rparr>], console = []\<rparr> = Inl TypeError"
  by (simp_all add: model_defs)

subsection \<open>Requests follow the two-state machine\<close>

text \<open>One request sent to a context that holds a state object referring back to it.\<close>

lemma send_step:
  assumes "c < length (contexts h)" and "state (contexts h ! c) = Some s"
    and "s < length (states h)" and "context_ref (states h ! s) = Some c"
  shows "\<exists>h' s'. send r c h = Inr h' \<and> c < length (contexts h') \<and>
           state (contexts h' ! c) = Some s' \<and> s' < length (states h') \<and>
           context_ref (states h' ! s') = Some c \<and>
           cls (states h' ! s') = spec_machine (cls (states h ! s)) r"
proof (cases r)
  case RequestOne
  show ?thesis
  proof (cases "cls (states h ! s)")
    case ConcreteStateA
    with assms RequestOne show ?thesis
      by (simp add: request1_held ConcreteStateA_handle1_valid)
  next
    case ConcreteStateB
    with assms RequestOne show ?thesis
      by (simp add: request1_held ConcreteStateB_handle1_def console_log_def)
  qed
next
  case RequestTwo
  show ?thesis
  proof (cases "cls (states h ! s)")
    case ConcreteStateA
    with assms RequestTwo show ?thesis
      by (simp add: request2_held ConcreteStateA_handle2_def console_log_def)
  next
    case ConcreteStateB
    with assms RequestTwo show ?thesis
      by (simp add: request2_held ConcreteStateB_handle2_valid)
  qed
qed

lemma requests_follow_machine:
  assumes "c < length (contexts h)" and "state (contexts h ! c) = Some s"
    and "s < length (states h)" and "context_ref (states h ! s) = Some c"
  shows "\<exists>h'. requests c rs h = Inr h' \<and>
           active_variant h' c = Some (foldl spec_machine (cls (states h ! s)) rs)"
  using assms
proof (induction rs arbitrary: h s)
  case Nil
  then show ?case by (simp add: active_variant_held)
next
  case (Cons r rs)
  from send_step[OF Cons.prems, of r] obtain h1 s1 where
    step: "send r c h = Inr h1" "c < length (contexts h1)" "state (contexts h1 ! c) = Some s1"
      "s1 < length (states h1)" "context_ref (states h1 ! s1) = Some c"
      "cls (states h1 ! s1) = spec_machine (cls (states h ! s)) r"
    by blast
  from Cons.IH[OF step(2-5)] step(1,6) show ?case by simp
qed

text \<open>
  Claim C1. Construct a context with any state object of class A of any store. The
  constructor returns, the context's active variant is A, and every sequence of
  \<open>request1\<close>/\<open>request2\<close> calls on that context returns and leaves the active variant
  where the two-state machine of the specification is after the same sequence started in
  A. As this holds for every sequence, it holds after each call of a sequence: a call
  changes the variant exactly as one step of the machine does.
\<close>

theorem requests_from_A_follow_machine:
  assumes "a < length (states h)" and "cls (states h ! a) = ConcreteStateA"
  shows "\<exists>c h0. new_Context a h = Inr (c, h0) \<and>
           active_variant h0 c = Some ConcreteStateA \<and>
           (\<forall>rs. \<exists>h'. requests c rs h0 = Inr h' \<and>
              active_variant h' c = Some (foldl spec_machine ConcreteStateA rs))"
proof -
  let ?c = "length (contexts h)"
  let ?h0 = "\<lparr>states = (states h)[a := (states h ! a)\<lparr>context_ref := Some ?c\<rparr>],
      contexts = contexts h @ [\<lparr>state = Some a\<rparr>],
      console = console h @
        [''Context: Transition to '' @ constructor_name (cls (states h ! a)) @ ''.'']\<rparr>"
  have new: "new_Context a h = Inr (?c, ?h0)"
    using assms(1) by (rule new_Context_valid)
  have inv: "?c < length (contexts ?h0)" "state (contexts ?h0 ! ?c) = Some a"
    "a < length (states ?h0)" "context_ref (states ?h0 ! a) = Some ?c"
    using assms(1) by simp_all
  have cls0: "cls (states ?h0 ! a) = ConcreteStateA"
    using assms by simp
  have "\<exists>h'. requests ?c rs ?h0 = Inr h' \<and>
           active_variant h' ?c = Some (foldl spec_machine ConcreteStateA rs)" for rs
    using requests_follow_machine[OF inv, of rs] cls0 by simp
  moreover have "active_variant ?h0 ?c = Some ConcreteStateA"
    using active_variant_held[OF inv(1-3)] cls0 by simp
  ultimately show ?thesis using new by blast
qed

theorem requests_from_A_follow_machine_witness:
  "0 < length (states (snd (new_State ConcreteStateA empty_store))) \<and>
   cls (states (snd (new_State ConcreteStateA empty_store)) ! 0) = ConcreteStateA \<and>
   (\<exists>c h0. new_Context 0 (snd (new_State ConcreteStateA empty_store)) = Inr (c, h0) \<and>
      (\<exists>h'. requests c [RequestOne, RequestOne, RequestTwo, RequestTwo, RequestOne] h0 = Inr h' \<and>
         active_variant h' c = Some ConcreteStateB))"
proof -
  let ?h = "snd (new_State ConcreteStateA empty_store)"
  have a: "0 < length (states ?h)" and b: "cls (states ?h ! 0) = ConcreteStateA"
    by (simp_all add: new_State_def empty_store_def)
  from requests_from_A_follow_machine[OF a b] obtain c h0 where
    n: "new_Context 0 ?h = Inr (c, h0)" and
    r: "\<forall>rs. \<exists>h'. requests c rs h0 = Inr h' \<and>
              active_variant h' c = Some (foldl spec_machine ConcreteStateA rs)"
    by blast
  from r obtain h' where "requests c [RequestOne, RequestOne, RequestTwo, RequestTwo, RequestOne] h0 = Inr h'"
    "active_variant h' c = Some (foldl spec_machine ConcreteStateA [RequestOne, RequestOne, RequestTwo, RequestTwo, RequestOne])"
    by blast
  then have "\<exists>h'. requests c [RequestOne, RequestOne, RequestTwo, RequestTwo, RequestOne] h0 = Inr h' \<and>
         active_variant h' c = Some ConcreteStateB" by simp
  with n a b show ?thesis by blast
qed

subsection \<open>The round trip and the requests that do not trigger\<close>

lemma attachedI:
  "c < length (contexts h) \<Longrightarrow> state (contexts h ! c) = Some s \<Longrightarrow> s < length (states h)
   \<Longrightarrow> context_ref (states h ! s) = Some c' \<Longrightarrow> c' < length (contexts h) \<Longrightarrow> attached h c"
  by (simp add: attached_def lookup_Context_def lookup_State_def)

lemma attachedE:
  assumes "attached h c"
  obtains s c' where "c < length (contexts h)" "state (contexts h ! c) = Some s"
    "s < length (states h)" "context_ref (states h ! s) = Some c'" "c' < length (contexts h)"
  using assms
  by (auto simp: attached_def lookup_Context_def lookup_State_def
      split: if_splits option.splits)

lemma state_refers_back_held:
  assumes "c < length (contexts h)" and "state (contexts h ! c) = Some s"
    and "s < length (states h)"
  shows "state_refers_back h c \<longleftrightarrow> context_ref (states h ! s) = Some c"
  using assms by (simp add: state_refers_back_def lookup_Context_def lookup_State_def)

text \<open>
  Claim C3. Take any store and any context of it that is attached and whose active
  variant is A. Then \<open>request1\<close> returns, \<open>request2\<close> on the resulting store returns, and
  the context's active variant is A again. In between, after \<open>request1\<close>, the active
  variant is B when the state object the context holds refers back to it, as it does for
  every context whose state objects were never handed to another context: the two calls
  take the context from A to B and back to A. When the held state object refers back to
  another context, \<open>request1\<close> moves that other context and this one stays in A
  throughout.
\<close>

theorem request1_request2_round_trip:
  assumes "attached h c" and "active_variant h c = Some ConcreteStateA"
  shows "\<exists>h1 h2. request1 c h = Inr h1 \<and>
           active_variant h1 c =
             Some (if state_refers_back h c then ConcreteStateB else ConcreteStateA) \<and>
           request2 c h1 = Inr h2 \<and>
           active_variant h2 c = Some ConcreteStateA"
proof -
  from assms(1) obtain s c' where
    c: "c < length (contexts h)" and s: "state (contexts h ! c) = Some s"
    and sv: "s < length (states h)" and br: "context_ref (states h ! s) = Some c'"
    and c': "c' < length (contexts h)"
    by (rule attachedE)
  from active_variant_held[OF c s sv] assms(2) have A: "cls (states h ! s) = ConcreteStateA"
    by simp
  have rb: "state_refers_back h c \<longleftrightarrow> c' = c"
    using state_refers_back_held[OF c s sv] br by simp
  let ?b = "length (states h)"
  let ?h1 = "\<lparr>states = states h @ [\<lparr>cls = ConcreteStateB, context_ref = Some c'\<rparr>],
      contexts = (contexts h)[c' := (contexts h ! c')\<lparr>state := Some ?b\<rparr>],
      console = console h @
        [''ConcreteStateA handles request1.'',
         ''ConcreteStateA wants to change the state of the context.'',
         ''Context: Transition to ConcreteStateB.'']\<rparr>"
  have r1: "request1 c h = Inr ?h1"
    using request1_held[OF c s sv] A ConcreteStateA_handle1_valid[OF sv br c'] by simp
  have c1: "c < length (contexts ?h1)" using c by simp
  show ?thesis
  proof (cases "c' = c")
    case True
    have s1: "state (contexts ?h1 ! c) = Some ?b" using True c by simp
    have sv1: "?b < length (states ?h1)" by simp
    have back1: "context_ref (states ?h1 ! ?b) = Some c" using True by simp
    have B: "cls (states ?h1 ! ?b) = ConcreteStateB" by simp
    have mid: "active_variant ?h1 c =
        Some (if state_refers_back h c then ConcreteStateB else ConcreteStateA)"
      using active_variant_held[OF c1 s1 sv1] B rb True by simp
    from send_step[OF c1 s1 sv1 back1, of RequestTwo] B
    obtain h2 s2 where h2: "request2 c ?h1 = Inr h2" "c < length (contexts h2)"
      "state (contexts h2 ! c) = Some s2" "s2 < length (states h2)"
      "cls (states h2 ! s2) = ConcreteStateA"
      by auto
    from active_variant_held[OF h2(2-4)] h2(5)
    have "active_variant h2 c = Some ConcreteStateA" by simp
    with r1 mid h2(1) show ?thesis by blast
  next
    case False
    have s1: "state (contexts ?h1 ! c) = Some s" using False s by simp
    have sv1: "s < length (states ?h1)" using sv by simp
    have A1: "cls (states ?h1 ! s) = ConcreteStateA" using A sv by (simp add: nth_append)
    have mid: "active_variant ?h1 c =
        Some (if state_refers_back h c then ConcreteStateB else ConcreteStateA)"
      using active_variant_held[OF c1 s1 sv1] A1 rb False by simp
    let ?h2 = "console_log ''ConcreteStateA handles request2.'' ?h1"
    have r2: "request2 c ?h1 = Inr ?h2"
      using request2_held[OF c1 s1 sv1] A1 by (simp add: ConcreteStateA_handle2_def)
    have "active_variant ?h2 c = Some ConcreteStateA"
      using c False s sv A by (simp add: active_variant_def lookup_Context_def
          lookup_State_def console_log_def nth_append)
    with r1 mid r2 show ?thesis by blast
  qed
qed

theorem request1_request2_round_trip_witness:
  "attached \<lparr>states = [\<lparr>cls = ConcreteStateA, context_ref = Some 0\<rparr>],
             contexts = [\<lparr>state = Some 0\<rparr>], console = []\<rparr> 0 \<and>
   active_variant \<lparr>states = [\<lparr>cls = ConcreteStateA, context_ref = Some 0\<rparr>],
             contexts = [\<lparr>state = Some 0\<rparr>], console = []\<rparr> 0 = Some ConcreteStateA \<and>
   (\<exists>h1 h2. request1 0 \<lparr>states = [\<lparr>cls = ConcreteStateA, context_ref = Some 0\<rparr>],
             contexts = [\<lparr>state = Some 0\<rparr>], console = []\<rparr> = Inr h1 \<and>
      active_variant h1 0 = Some ConcreteStateB \<and>
      request2 0 h1 = Inr h2 \<and> active_variant h2 0 = Some ConcreteStateA) \<and>
   attached \<lparr>states = [\<lparr>cls = ConcreteStateA, context_ref = Some 1\<rparr>],
             contexts = [\<lparr>state = Some 0\<rparr>, \<lparr>state = Some 0\<rparr>], console = []\<rparr> 0 \<and>
   active_variant \<lparr>states = [\<lparr>cls = ConcreteStateA, context_ref = Some 1\<rparr>],
             contexts = [\<lparr>state = Some 0\<rparr>, \<lparr>state = Some 0\<rparr>], console = []\<rparr> 0 =
     Some ConcreteStateA \<and>
   (\<exists>h1 h2. request1 0 \<lparr>states = [\<lparr>cls = ConcreteStateA, context_ref = Some 1\<rparr>],
             contexts = [\<lparr>state = Some 0\<rparr>, \<lparr>state = Some 0\<rparr>], console = []\<rparr> = Inr h1 \<and>
      active_variant h1 0 = Some ConcreteStateA \<and>
      request2 0 h1 = Inr h2 \<and> active_variant h2 0 = Some ConcreteStateA)"
proof -
  let ?h = "\<lparr>states = [\<lparr>cls = ConcreteStateA, context_ref = Some 0\<rparr>],
             contexts = [\<lparr>state = Some 0\<rparr>], console = []\<rparr>"
  let ?k = "\<lparr>states = [\<lparr>cls = ConcreteStateA, context_ref = Some 1\<rparr>],
             contexts = [\<lparr>state = Some 0\<rparr>, \<lparr>state = Some 0\<rparr>], console = []\<rparr>"
  have a: "attached ?h 0"
    by (simp add: attached_def lookup_Context_def lookup_State_def)
  have v: "active_variant ?h 0 = Some ConcreteStateA"
    by (simp add: active_variant_def lookup_Context_def lookup_State_def)
  have rb: "state_refers_back ?h 0"
    by (simp add: state_refers_back_def lookup_Context_def lookup_State_def)
  have a': "attached ?k 0"
    by (simp add: attached_def lookup_Context_def lookup_State_def)
  have v': "active_variant ?k 0 = Some ConcreteStateA"
    by (simp add: active_variant_def lookup_Context_def lookup_State_def)
  have rb': "\<not> state_refers_back ?k 0"
    by (simp add: state_refers_back_def lookup_Context_def lookup_State_def)
  from request1_request2_round_trip[OF a v] rb
  have "\<exists>h1 h2. request1 0 ?h = Inr h1 \<and> active_variant h1 0 = Some ConcreteStateB \<and>
      request2 0 h1 = Inr h2 \<and> active_variant h2 0 = Some ConcreteStateA"
    by simp
  moreover from request1_request2_round_trip[OF a' v'] rb'
  have "\<exists>h1 h2. request1 0 ?k = Inr h1 \<and> active_variant h1 0 = Some ConcreteStateA \<and>
      request2 0 h1 = Inr h2 \<and> active_variant h2 0 = Some ConcreteStateA"
    by simp
  ultimately show ?thesis using a v a' v' by blast
qed

lemma repeat_console_only:
  assumes "\<And>h. states h = S \<Longrightarrow> contexts h = C \<Longrightarrow>
             \<exists>h'. f h = Inr h' \<and> states h' = S \<and> contexts h' = C"
    and "states h = S" and "contexts h = C"
  shows "\<exists>h'. repeat n f h = Inr h' \<and> states h' = S \<and> contexts h' = C"
  using assms(2,3)
proof (induction n arbitrary: h)
  case 0
  then show ?case by simp
next
  case (Suc n)
  from assms(1)[OF Suc.prems] obtain h1 where
    "f h = Inr h1" "states h1 = S" "contexts h1 = C" by blast
  with Suc.IH[of h1] show ?case by simp
qed

lemma active_variant_cong:
  "states h' = states h \<Longrightarrow> contexts h' = contexts h \<Longrightarrow> active_variant h' = active_variant h"
  by (rule ext) (simp add: active_variant_def lookup_Context_def lookup_State_def
      split: option.splits)

text \<open>
  Claim C4. While the active variant of a context is A, any number of \<open>request2\<close> calls in
  a row return and change neither an object nor a reference of the store, so every
  context keeps its active variant; the same holds for \<open>request1\<close> while the active variant
  is B. Only the console grows.
\<close>

theorem non_triggering_requests_keep_variant:
  "(active_variant h c = Some ConcreteStateA \<longrightarrow>
      (\<exists>h'. repeat n (request2 c) h = Inr h' \<and> states h' = states h \<and>
         contexts h' = contexts h \<and> active_variant h' = active_variant h)) \<and>
   (active_variant h c = Some ConcreteStateB \<longrightarrow>
      (\<exists>h'. repeat n (request1 c) h = Inr h' \<and> states h' = states h \<and>
         contexts h' = contexts h \<and> active_variant h' = active_variant h))"
proof (intro conjI impI)
  assume "active_variant h c = Some ConcreteStateA"
  then obtain s where held: "c < length (contexts h)" "state (contexts h ! c) = Some s"
    "s < length (states h)" "cls (states h ! s) = ConcreteStateA"
    by (rule active_variant_SomeD)
  have "\<exists>h'. request2 c k = Inr h' \<and> states h' = states h \<and> contexts h' = contexts h"
    if "states k = states h" "contexts k = contexts h" for k
    using that held request2_held[of c k s]
    by (simp add: ConcreteStateA_handle2_def console_log_def)
  from repeat_console_only[of "states h" "contexts h" "request2 c", OF this refl refl, of n]
  obtain h' where "repeat n (request2 c) h = Inr h'" "states h' = states h"
    "contexts h' = contexts h"
    by blast
  with active_variant_cong[of h' h]
  show "\<exists>h'. repeat n (request2 c) h = Inr h' \<and> states h' = states h \<and>
         contexts h' = contexts h \<and> active_variant h' = active_variant h"
    by blast
next
  assume "active_variant h c = Some ConcreteStateB"
  then obtain s where held: "c < length (contexts h)" "state (contexts h ! c) = Some s"
    "s < length (states h)" "cls (states h ! s) = ConcreteStateB"
    by (rule active_variant_SomeD)
  have "\<exists>h'. request1 c k = Inr h' \<and> states h' = states h \<and> contexts h' = contexts h"
    if "states k = states h" "contexts k = contexts h" for k
    using that held request1_held[of c k s]
    by (simp add: ConcreteStateB_handle1_def console_log_def)
  from repeat_console_only[of "states h" "contexts h" "request1 c", OF this refl refl, of n]
  obtain h' where "repeat n (request1 c) h = Inr h'" "states h' = states h"
    "contexts h' = contexts h"
    by blast
  with active_variant_cong[of h' h]
  show "\<exists>h'. repeat n (request1 c) h = Inr h' \<and> states h' = states h \<and>
         contexts h' = contexts h \<and> active_variant h' = active_variant h"
    by blast
qed

theorem non_triggering_requests_keep_variant_witness:
  "active_variant \<lparr>states = [\<lparr>cls = ConcreteStateA, context_ref = Some 0\<rparr>],
      contexts = [\<lparr>state = Some 0\<rparr>], console = []\<rparr> 0 = Some ConcreteStateA \<and>
   (\<exists>h'. repeat 3 (request2 0) \<lparr>states = [\<lparr>cls = ConcreteStateA, context_ref = Some 0\<rparr>],
      contexts = [\<lparr>state = Some 0\<rparr>], console = []\<rparr> = Inr h' \<and>
      active_variant h' 0 = Some ConcreteStateA) \<and>
   active_variant \<lparr>states = [\<lparr>cls = ConcreteStateB, context_ref = Some 0\<rparr>],
      contexts = [\<lparr>state = Some 0\<rparr>], console = []\<rparr> 0 = Some ConcreteStateB \<and>
   (\<exists>h'. repeat 3 (request1 0) \<lparr>states = [\<lparr>cls = ConcreteStateB, context_ref = Some 0\<rparr>],
      contexts = [\<lparr>state = Some 0\<rparr>], console = []\<rparr> = Inr h' \<and>
      active_variant h' 0 = Some ConcreteStateB)"
proof -
  let ?hA = "\<lparr>states = [\<lparr>cls = ConcreteStateA, context_ref = Some 0\<rparr>],
      contexts = [\<lparr>state = Some 0\<rparr>], console = []\<rparr>"
  let ?hB = "\<lparr>states = [\<lparr>cls = ConcreteStateB, context_ref = Some 0\<rparr>],
      contexts = [\<lparr>state = Some 0\<rparr>], console = []\<rparr>"
  have a: "active_variant ?hA 0 = Some ConcreteStateA"
    by (simp add: active_variant_def lookup_Context_def lookup_State_def)
  have b: "active_variant ?hB 0 = Some ConcreteStateB"
    by (simp add: active_variant_def lookup_Context_def lookup_State_def)
  from non_triggering_requests_keep_variant[of ?hA 0 3] a
  have "\<exists>h'. repeat 3 (request2 0) ?hA = Inr h' \<and> active_variant h' 0 = Some ConcreteStateA"
    by auto
  moreover from non_triggering_requests_keep_variant[of ?hB 0 3] b
  have "\<exists>h'. repeat 3 (request1 0) ?hB = Inr h' \<and> active_variant h' 0 = Some ConcreteStateB"
    by auto
  ultimately show ?thesis using a b by blast
qed

subsection \<open>transitionTo and the transitions made by the handlers\<close>

text \<open>
  Claim C7, as the code has it. For every context \<open>c\<close> and every state object \<open>s\<close> of the
  store, of either class, \<open>transitionTo\<close> returns; afterwards the context holds \<open>s\<close>, the
  back-reference of \<open>s\<close> is \<open>c\<close>, one transition line naming the class of \<open>s\<close> has been
  appended to the console, the context refers to no state object other than \<open>s\<close>, and
  every other state object is as it was before the call. A previously held object is
  therefore dropped, untouched, exactly when it is not \<open>s\<close> itself.
\<close>

theorem transitionTo_effect:
  assumes "c < length (contexts h)" and "s < length (states h)"
  shows "\<exists>h'. transitionTo c s h = Inr h' \<and>
           state (contexts h' ! c) = Some s \<and>
           context_ref (states h' ! s) = Some c \<and>
           console h' = console h @
             [''Context: Transition to '' @ constructor_name (cls (states h ! s)) @ ''.''] \<and>
           length (states h') = length (states h) \<and>
           (\<forall>p. p \<noteq> s \<longrightarrow> state (contexts h' ! c) \<noteq> Some p \<and> states h' ! p = states h ! p)"
  using assms by (simp add: transitionTo_valid)

theorem transitionTo_effect_witness:
  "(0::nat) < length (contexts \<lparr>states = [\<lparr>cls = ConcreteStateA, context_ref = Some 0\<rparr>,
        \<lparr>cls = ConcreteStateB, context_ref = None\<rparr>],
      contexts = [\<lparr>state = Some 0\<rparr>], console = []\<rparr>) \<and>
   (1::nat) < length (states \<lparr>states = [\<lparr>cls = ConcreteStateA, context_ref = Some 0\<rparr>,
        \<lparr>cls = ConcreteStateB, context_ref = None\<rparr>],
      contexts = [\<lparr>state = Some 0\<rparr>], console = []\<rparr>) \<and>
   (\<exists>h'. transitionTo 0 1 \<lparr>states = [\<lparr>cls = ConcreteStateA, context_ref = Some 0\<rparr>,
        \<lparr>cls = ConcreteStateB, context_ref = None\<rparr>],
      contexts = [\<lparr>state = Some 0\<rparr>], console = []\<rparr> = Inr h' \<and>
      state (contexts h' ! 0) = Some 1 \<and>
      context_ref (states h' ! 1) = Some 0 \<and>
      console h' = [''Context: Transition to ConcreteStateB.''] \<and>
      state (contexts h' ! 0) \<noteq> Some 0 \<and>
      states h' ! 0 = \<lparr>cls = ConcreteStateA, context_ref = Some 0\<rparr>)"
proof -
  let ?h = "\<lparr>states = [\<lparr>cls = ConcreteStateA, context_ref = Some 0\<rparr>,
        \<lparr>cls = ConcreteStateB, context_ref = None\<rparr>],
      contexts = [\<lparr>state = Some 0\<rparr>], console = []\<rparr>"
  have c: "(0::nat) < length (contexts ?h)" and s: "(1::nat) < length (states ?h)"
    by simp_all
  from transitionTo_effect[OF c s] obtain h' where
    "transitionTo 0 1 ?h = Inr h'" "state (contexts h' ! 0) = Some 1"
    "context_ref (states h' ! 1) = Some 0"
    "console h' = console ?h @
       [''Context: Transition to '' @ constructor_name (cls (states ?h ! 1)) @ ''.'']"
    "\<forall>p. p \<noteq> 1 \<longrightarrow> state (contexts h' ! 0) \<noteq> Some p \<and> states h' ! p = states ?h ! p"
    by blast
  then have "transitionTo 0 1 ?h = Inr h' \<and>
      state (contexts h' ! 0) = Some 1 \<and>
      context_ref (states h' ! 1) = Some 0 \<and>
      console h' = [''Context: Transition to ConcreteStateB.''] \<and>
      state (contexts h' ! 0) \<noteq> Some 0 \<and>
      states h' ! 0 = \<lparr>cls = ConcreteStateA, context_ref = Some 0\<rparr>"
    by simp
  with c s show ?thesis by blast
qed

text \<open>
  The store after \<open>new Context(new ConcreteStateA())\<close>, and a call of \<open>transitionTo\<close> on
  that context with the state object it already holds: the call returns and the
  previously held object is still the one the context refers to.
\<close>

theorem transitionTo_held_state_not_dropped:
  "run [NewState ConcreteStateA, NewContext 0] empty_store =
     Inr \<lparr>states = [\<lparr>cls = ConcreteStateA, context_ref = Some 0\<rparr>],
          contexts = [\<lparr>state = Some 0\<rparr>],
          console = [''Context: Transition to ConcreteStateA.'']\<rparr> \<and>
   transitionTo 0 0
     \<lparr>states = [\<lparr>cls = ConcreteStateA, context_ref = Some 0\<rparr>],
      contexts = [\<lparr>state = Some 0\<rparr>],
      console = [''Context: Transition to ConcreteStateA.'']\<rparr> =
     Inr \<lparr>states = [\<lparr>cls = ConcreteStateA, context_ref = Some 0\<rparr>],
          contexts = [\<lparr>state = Some 0\<rparr>],
          console = [''Context: Transition to ConcreteStateA.'',
                     ''Context: Transition to ConcreteStateA.'']\<rparr>"
  by (simp add: model_defs Let_def)

text \<open>
  Claim C8. \<open>ConcreteStateA.handle1\<close> and \<open>ConcreteStateB.handle2\<close>, called on a state object
  whose back-reference names a context of the store, return; each appends exactly one
  new state object of the other class to the store and installs that object in the
  context. The installed reference denoted no object before the call, so no object that
  existed, held or not, is installed again; the objects that existed are unchanged.
\<close>

theorem handlers_install_fresh_state:
  assumes "this < length (states h)" and "context_ref (states h ! this) = Some c"
    and "c < length (contexts h)"
  shows "(\<exists>h'. ConcreteStateA_handle1 this h = Inr h' \<and>
            states h' = states h @ [\<lparr>cls = ConcreteStateB, context_ref = Some c\<rparr>] \<and>
            state (contexts h' ! c) = Some (length (states h)) \<and>
            lookup_State h (length (states h)) = None) \<and>
         (\<exists>h'. ConcreteStateB_handle2 this h = Inr h' \<and>
            states h' = states h @ [\<lparr>cls = ConcreteStateA, context_ref = Some c\<rparr>] \<and>
            state (contexts h' ! c) = Some (length (states h)) \<and>
            lookup_State h (length (states h)) = None)"
  using assms
  by (simp add: ConcreteStateA_handle1_valid ConcreteStateB_handle2_valid lookup_State_def)

theorem handlers_install_fresh_state_witness:
  "(0::nat) < length (states \<lparr>states = [\<lparr>cls = ConcreteStateA, context_ref = Some 0\<rparr>],
      contexts = [\<lparr>state = Some 0\<rparr>], console = []\<rparr>) \<and>
   context_ref (states \<lparr>states = [\<lparr>cls = ConcreteStateA, context_ref = Some 0\<rparr>],
      contexts = [\<lparr>state = Some 0\<rparr>], console = []\<rparr> ! 0) = Some 0 \<and>
   (0::nat) < length (contexts \<lparr>states = [\<lparr>cls = ConcreteStateA, context_ref = Some 0\<rparr>],
      contexts = [\<lparr>state = Some 0\<rparr>], console = []\<rparr>) \<and>
   (\<exists>h'. ConcreteStateA_handle1 0 \<lparr>states = [\<lparr>cls = ConcreteStateA, context_ref = Some 0\<rparr>],
      contexts = [\<lparr>state = Some 0\<rparr>], console = []\<rparr> = Inr h' \<and>
      states h' = [\<lparr>cls = ConcreteStateA, context_ref = Some 0\<rparr>,
                   \<lparr>cls = ConcreteStateB, context_ref = Some 0\<rparr>] \<and>
      state (contexts h' ! 0) = Some 1) \<and>
   (0::nat) < length (states \<lparr>states = [\<lparr>cls = ConcreteStateB, context_ref = Some 0\<rparr>],
      contexts = [\<lparr>state = Some 0\<rparr>], console = []\<rparr>) \<and>
   context_ref (states \<lparr>states = [\<lparr>cls = ConcreteStateB, context_ref = Some 0\<rparr>],
      contexts = [\<lparr>state = Some 0\<rparr>], console = []\<rparr> ! 0) = Some 0 \<and>
   (0::nat) < length (contexts \<lparr>states = [\<lparr>cls = ConcreteStateB, context_ref = Some 0\<rparr>],
      contexts = [\<lparr>state = Some 0\<rparr>], console = []\<rparr>) \<and>
   (\<exists>h'. ConcreteStateB_handle2 0 \<lparr>states = [\<lparr>cls = ConcreteStateB, context_ref = Some 0\<rparr>],
      contexts = [\<lparr>state = Some 0\<rparr>], console = []\<rparr> = Inr h' \<and>
      states h' = [\<lparr>cls = ConcreteStateB, context_ref = Some 0\<rparr>,
                   \<lparr>cls = ConcreteStateA, context_ref = Some 0\<rparr>] \<and>
      state (contexts h' ! 0) = Some 1)"
proof -
  let ?hA = "\<lparr>states = [\<lparr>cls = ConcreteStateA, context_ref = Some 0\<rparr>],
      contexts = [\<lparr>state = Some 0\<rparr>], console = []\<rparr>"
  let ?hB = "\<lparr>states = [\<lparr>cls = ConcreteStateB, context_ref = Some 0\<rparr>],
      contexts = [\<lparr>state = Some 0\<rparr>], console = []\<rparr>"
  have a: "(0::nat) < length (states ?hA)" and b: "context_ref (states ?hA ! 0) = Some 0"
    and c: "(0::nat) < length (contexts ?hA)"
    by simp_all
  have a': "(0::nat) < length (states ?hB)" and b': "context_ref (states ?hB ! 0) = Some 0"
    and c': "(0::nat) < length (contexts ?hB)"
    by simp_all
  from handlers_install_fresh_state[OF a b c]
  have "\<exists>h'. ConcreteStateA_handle1 0 ?hA = Inr h' \<and>
      states h' = [\<lparr>cls = ConcreteStateA, context_ref = Some 0\<rparr>,
                   \<lparr>cls = ConcreteStateB, context_ref = Some 0\<rparr>] \<and>
      state (contexts h' ! 0) = Some 1"
    by auto
  moreover from handlers_install_fresh_state[OF a' b' c']
  have "\<exists>h'. ConcreteStateB_handle2 0 ?hB = Inr h' \<and>
      states h' = [\<lparr>cls = ConcreteStateB, context_ref = Some 0\<rparr>,
                   \<lparr>cls = ConcreteStateA, context_ref = Some 0\<rparr>] \<and>
      state (contexts h' ! 0) = Some 1"
    by auto
  ultimately show ?thesis using a b c a' b' c' by blast
qed

subsection \<open>Reachable stores are well formed\<close>

lemma wf_storeI: "(\<And>d. d < length (contexts h) \<Longrightarrow> attached h d) \<Longrightarrow> wf_store h"
  by (simp add: wf_store_def)

lemma wf_storeD: "wf_store h \<Longrightarrow> d < length (contexts h) \<Longrightarrow> attached h d"
  by (simp add: wf_store_def)

lemma wf_empty_store: "wf_store empty_store"
  by (simp add: wf_store_def empty_store_def)

lemma new_State_wf:
  assumes "wf_store h"
  shows "wf_store (snd (new_State v h))"
proof (rule wf_storeI)
  fix d assume "d < length (contexts (snd (new_State v h)))"
  then have d: "d < length (contexts h)" by (simp add: new_State_def)
  from wf_storeD[OF assms d] obtain t c' where
    "state (contexts h ! d) = Some t" "t < length (states h)"
    "context_ref (states h ! t) = Some c'" "c' < length (contexts h)"
    by (rule attachedE)
  with d show "attached (snd (new_State v h)) d"
    by (intro attachedI[where s = t and c' = c']) (simp_all add: new_State_def nth_append)
qed

lemma transitionTo_wf:
  assumes "wf_store h" and "c < length (contexts h)" and "s < length (states h)"
  shows "\<exists>h'. transitionTo c s h = Inr h' \<and> wf_store h'"
proof -
  let ?h' = "\<lparr>states = (states h)[s := (states h ! s)\<lparr>context_ref := Some c\<rparr>],
      contexts = (contexts h)[c := (contexts h ! c)\<lparr>state := Some s\<rparr>],
      console = console h @
        [''Context: Transition to '' @ constructor_name (cls (states h ! s)) @ ''.'']\<rparr>"
  have "attached ?h' d" if d: "d < length (contexts h)" for d
  proof (cases "d = c")
    case True
    then show ?thesis using assms by (intro attachedI[where s = s and c' = c]) simp_all
  next
    case False
    from wf_storeD[OF assms(1) d] obtain t c' where
      t: "state (contexts h ! d) = Some t" "t < length (states h)"
        "context_ref (states h ! t) = Some c'" "c' < length (contexts h)"
      by (rule attachedE)
    show ?thesis
    proof (cases "t = s")
      case True
      then show ?thesis using assms d False t
        by (intro attachedI[where s = t and c' = c]) simp_all
    next
      case neq: False
      then show ?thesis using assms d False t
        by (intro attachedI[where s = t and c' = c']) simp_all
    qed
  qed
  then have "wf_store ?h'" by (simp add: wf_store_def)
  with transitionTo_valid[OF assms(2,3)] show ?thesis by simp
qed

lemma new_Context_wf:
  assumes "wf_store h" and "s < length (states h)"
  shows "\<exists>c h'. new_Context s h = Inr (c, h') \<and> wf_store h'"
proof -
  let ?c = "length (contexts h)"
  let ?h' = "\<lparr>states = (states h)[s := (states h ! s)\<lparr>context_ref := Some ?c\<rparr>],
      contexts = contexts h @ [\<lparr>state = Some s\<rparr>],
      console = console h @
        [''Context: Transition to '' @ constructor_name (cls (states h ! s)) @ ''.'']\<rparr>"
  have "attached ?h' d" if d: "d < Suc (length (contexts h))" for d
  proof (cases "d = ?c")
    case True
    then show ?thesis using assms by (intro attachedI[where s = s and c' = ?c]) simp_all
  next
    case False
    with d have d': "d < length (contexts h)" by simp
    from wf_storeD[OF assms(1) d'] obtain t c' where
      t: "state (contexts h ! d) = Some t" "t < length (states h)"
        "context_ref (states h ! t) = Some c'" "c' < length (contexts h)"
      by (rule attachedE)
    show ?thesis
    proof (cases "t = s")
      case True
      then show ?thesis using assms d' t
        by (intro attachedI[where s = t and c' = ?c]) (simp_all add: nth_append)
    next
      case neq: False
      then show ?thesis using assms d' t
        by (intro attachedI[where s = t and c' = c']) (simp_all add: nth_append)
    qed
  qed
  then have "wf_store ?h'" by (simp add: wf_store_def)
  with new_Context_valid[OF assms(2)] show ?thesis by simp
qed

text \<open>A handler that installs a new state object of class \<open>v\<close> in the context \<open>c'\<close>.\<close>

lemma install_fresh_wf:
  assumes "wf_store h" and "c' < length (contexts h)"
  shows "wf_store \<lparr>states = states h @ [\<lparr>cls = v, context_ref = Some c'\<rparr>],
      contexts = (contexts h)[c' := (contexts h ! c')\<lparr>state := Some (length (states h))\<rparr>],
      console = out\<rparr>"
    (is "wf_store ?h'")
proof (rule wf_storeI)
  fix d assume "d < length (contexts ?h')"
  then have d: "d < length (contexts h)" by simp
  show "attached ?h' d"
  proof (cases "d = c'")
    case True
    then show ?thesis using assms
      by (intro attachedI[where s = "length (states h)" and c' = c']) simp_all
  next
    case False
    from wf_storeD[OF assms(1) d] obtain t e where
      "state (contexts h ! d) = Some t" "t < length (states h)"
      "context_ref (states h ! t) = Some e" "e < length (contexts h)"
      by (rule attachedE)
    with d False show ?thesis
      by (intro attachedI[where s = t and c' = e]) (simp_all add: nth_append)
  qed
qed

lemma console_log_wf:
  assumes "wf_store h"
  shows "wf_store (console_log line h)"
proof (rule wf_storeI)
  fix d assume "d < length (contexts (console_log line h))"
  then have d: "d < length (contexts h)" by (simp add: console_log_def)
  from wf_storeD[OF assms d] obtain t e where
    "state (contexts h ! d) = Some t" "t < length (states h)"
    "context_ref (states h ! t) = Some e" "e < length (contexts h)"
    by (rule attachedE)
  with d show "attached (console_log line h) d"
    by (intro attachedI[where s = t and c' = e]) (simp_all add: console_log_def)
qed

lemma request1_wf:
  assumes "wf_store h" and "c < length (contexts h)"
  shows "\<exists>h'. request1 c h = Inr h' \<and> wf_store h'"
proof -
  from wf_storeD[OF assms] obtain s c' where
    s: "state (contexts h ! c) = Some s" and sv: "s < length (states h)"
    and br: "context_ref (states h ! s) = Some c'" and c': "c' < length (contexts h)"
    by (rule attachedE)
  show ?thesis
  proof (cases "cls (states h ! s)")
    case ConcreteStateA
    then show ?thesis
      using request1_held[OF assms(2) s sv] ConcreteStateA_handle1_valid[OF sv br c']
        install_fresh_wf[OF assms(1) c']
      by simp
  next
    case ConcreteStateB
    then show ?thesis
      using request1_held[OF assms(2) s sv] console_log_wf[OF assms(1)]
      by (simp add: ConcreteStateB_handle1_def)
  qed
qed

lemma request2_wf:
  assumes "wf_store h" and "c < length (contexts h)"
  shows "\<exists>h'. request2 c h = Inr h' \<and> wf_store h'"
proof -
  from wf_storeD[OF assms] obtain s c' where
    s: "state (contexts h ! c) = Some s" and sv: "s < length (states h)"
    and br: "context_ref (states h ! s) = Some c'" and c': "c' < length (contexts h)"
    by (rule attachedE)
  show ?thesis
  proof (cases "cls (states h ! s)")
    case ConcreteStateA
    then show ?thesis
      using request2_held[OF assms(2) s sv] console_log_wf[OF assms(1)]
      by (simp add: ConcreteStateA_handle2_def)
  next
    case ConcreteStateB
    then show ?thesis
      using request2_held[OF assms(2) s sv] ConcreteStateB_handle2_valid[OF sv br c']
        install_fresh_wf[OF assms(1) c']
      by simp
  qed
qed

lemma exec_wf:
  assumes "wf_store h" and "in_scope h k"
  shows "\<exists>h'. exec k h = Inr h' \<and> wf_store h'"
proof (cases k)
  case (NewState v)
  with assms show ?thesis by (simp add: new_State_wf)
next
  case (NewContext s)
  with assms new_Context_wf[of h s] show ?thesis by auto
next
  case (TransitionTo c s)
  with assms show ?thesis by (simp add: transitionTo_wf)
next
  case (Request1 c)
  with assms show ?thesis by (simp add: request1_wf)
next
  case (Request2 c)
  with assms show ?thesis by (simp add: request2_wf)
qed

lemma run_wf:
  assumes "wf_store h" and "scoped ks h"
  shows "\<exists>h'. run ks h = Inr h' \<and> wf_store h'"
  using assms
proof (induction ks arbitrary: h)
  case Nil
  then show ?case by simp
next
  case (Cons k ks)
  from Cons.prems have "in_scope h k" by simp
  from exec_wf[OF Cons.prems(1) this] obtain h1 where
    h1: "exec k h = Inr h1" "wf_store h1" by blast
  with Cons.prems have "scoped ks h1" by simp
  from Cons.IH[OF h1(2) this] h1(1) show ?case by simp
qed

lemma scoped_prefix: "scoped (ks @ ls) h \<Longrightarrow> scoped ks h"
proof (induction ks arbitrary: h)
  case Nil
  show ?case by simp
next
  case (Cons k ks)
  then show ?case by (cases "exec k h") auto
qed

text \<open>
  Claim C5. Every scoped client program, run from the empty store, runs to its end, and
  in the store it leaves the \<open>state\<close> field of every context refers to a state object of
  the store. Programs are made of constructor calls, \<open>transitionTo\<close>, \<open>request1\<close> and
  \<open>request2\<close>, and every prefix of a scoped program is a scoped program, so the field is
  assigned after each constructor and stays assigned after each operation.
\<close>

theorem state_field_always_set:
  assumes "scoped ks empty_store"
  shows "\<exists>h. run ks empty_store = Inr h \<and>
           (\<forall>c. c < length (contexts h) \<longrightarrow>
              (\<exists>s. state (contexts h ! c) = Some s \<and> s < length (states h)))"
proof -
  from run_wf[OF wf_empty_store assms] obtain h where
    h: "run ks empty_store = Inr h" "wf_store h" by blast
  have "\<exists>s. state (contexts h ! c) = Some s \<and> s < length (states h)"
    if "c < length (contexts h)" for c
    using wf_storeD[OF h(2) that] by (auto elim: attachedE)
  with h(1) show ?thesis by blast
qed

theorem state_field_always_set_witness:
  "scoped [NewState ConcreteStateA, NewContext 0, Request1 0, NewState ConcreteStateB,
           TransitionTo 0 2, Request2 0] empty_store \<and>
   (\<exists>h. run [NewState ConcreteStateA, NewContext 0, Request1 0, NewState ConcreteStateB,
              TransitionTo 0 2, Request2 0] empty_store = Inr h \<and>
      length (contexts h) = 1 \<and>
      (\<exists>s. state (contexts h ! 0) = Some s \<and> s < length (states h)))"
proof -
  let ?ks = "[NewState ConcreteStateA, NewContext 0, Request1 0, NewState ConcreteStateB,
           TransitionTo 0 2, Request2 0]"
  have sc: "scoped ?ks empty_store"
    by (simp add: model_defs Let_def)
  from state_field_always_set[OF sc] obtain h where
    h: "run ?ks empty_store = Inr h"
      "\<forall>c. c < length (contexts h) \<longrightarrow>
         (\<exists>s. state (contexts h ! c) = Some s \<and> s < length (states h))"
    by blast
  from h(1) have len: "length (contexts h) = 1"
    by (auto simp: model_defs Let_def)
  with h(2) have "\<exists>s. state (contexts h ! 0) = Some s \<and> s < length (states h)"
    by simp
  with sc h(1) len show ?thesis by blast
qed

text \<open>
  Claim C9. Every scoped client program, run from the empty store, runs to its end: no
  constructor call, \<open>transitionTo\<close>, \<open>request1\<close> or \<open>request2\<close> in it throws. In the store
  it leaves, every context holds a state object whose back-reference is assigned to a
  context of the store, so the dereference of the back-reference in the handlers finds
  it assigned, and every further command in scope returns as well.
\<close>

theorem normal_use_never_fails:
  assumes "scoped ks empty_store"
  shows "\<exists>h. run ks empty_store = Inr h \<and>
           (\<forall>c. c < length (contexts h) \<longrightarrow>
              (\<exists>s c'. state (contexts h ! c) = Some s \<and> s < length (states h) \<and>
                 context_ref (states h ! s) = Some c' \<and> c' < length (contexts h))) \<and>
           (\<forall>k. in_scope h k \<longrightarrow> (\<exists>h'. exec k h = Inr h'))"
proof -
  from run_wf[OF wf_empty_store assms] obtain h where
    h: "run ks empty_store = Inr h" "wf_store h" by blast
  have "\<exists>s c'. state (contexts h ! c) = Some s \<and> s < length (states h) \<and>
          context_ref (states h ! s) = Some c' \<and> c' < length (contexts h)"
    if "c < length (contexts h)" for c
    using wf_storeD[OF h(2) that] by (auto elim: attachedE)
  moreover have "\<exists>h'. exec k h = Inr h'" if "in_scope h k" for k
    using exec_wf[OF h(2) that] by blast
  ultimately show ?thesis using h(1) by blast
qed

theorem normal_use_never_fails_witness:
  "scoped [NewState ConcreteStateA, NewContext 0, Request1 0, Request2 0] empty_store \<and>
   (\<exists>h. run [NewState ConcreteStateA, NewContext 0, Request1 0, Request2 0] empty_store = Inr h \<and>
      length (contexts h) = 1 \<and>
      (\<exists>s c'. state (contexts h ! 0) = Some s \<and> s < length (states h) \<and>
         context_ref (states h ! s) = Some c' \<and> c' < length (contexts h)) \<and>
      in_scope h (Request1 0) \<and> (\<exists>h'. exec (Request1 0) h = Inr h'))"
proof -
  let ?ks = "[NewState ConcreteStateA, NewContext 0, Request1 0, Request2 0]"
  have sc: "scoped ?ks empty_store"
    by (simp add: model_defs Let_def)
  from normal_use_never_fails[OF sc] obtain h where
    h: "run ?ks empty_store = Inr h"
      "\<forall>c. c < length (contexts h) \<longrightarrow>
         (\<exists>s c'. state (contexts h ! c) = Some s \<and> s < length (states h) \<and>
            context_ref (states h ! s) = Some c' \<and> c' < length (contexts h))"
      "\<forall>k. in_scope h k \<longrightarrow> (\<exists>h'. exec k h = Inr h')"
    by blast
  from h(1) have len: "length (contexts h) = 1"
    by (auto simp: model_defs Let_def)
  then have sc1: "in_scope h (Request1 0)" by simp
  from h(2) len have "\<exists>s c'. state (contexts h ! 0) = Some s \<and> s < length (states h) \<and>
         context_ref (states h ! s) = Some c' \<and> c' < length (contexts h)"
    by simp
  moreover from h(3) sc1 have "\<exists>h'. exec (Request1 0) h = Inr h'" by blast
  ultimately show ?thesis using sc h(1) len sc1 by blast
qed

subsection \<open>Back-references\<close>




















end
